theory Spec2Isabelle
  imports Main
begin

section \<open>Worker data model (worker module)\<close>

text \<open>
  The ten tools of \<^verbatim>\<open>BrowserStep["tool"]\<close>, the step record and the worker result.
  The optional \<^verbatim>\<open>stepNumber\<close> is never read or written by the worker and is left out.
\<close>

datatype tool = GOTO | ACT | EXTRACT | OBSERVE | CLOSE | WAIT | NAVBACK | SCREENSHOT | DONE | FAIL

record BrowserStep =
  "text" :: string
  reasoning :: string
  tool :: tool
  instruction :: string

datatype status = Status_PENDING | Status_IN_PROGRESS | Status_DONE | Status_FAILED

text \<open>
  Values that travel through \<^verbatim>\<open>any\<close>-typed variables: \<^verbatim>\<open>null\<close>/\<^verbatim>\<open>undefined\<close>, a string,
  an array (its elements rendered as strings) or some other object.
\<close>

datatype payload = Null | Str string | Arr "string list" | Obj string

fun truthy :: "payload \<Rightarrow> bool" where
  "truthy Null = False"
| "truthy (Str s) = (s \<noteq> [])"
| "truthy (Arr xs) = True"
| "truthy (Obj s) = True"

text \<open>
  A thrown value is an \<^verbatim>\<open>Error\<close> object with its message, or anything else, kept as what
  \<^verbatim>\<open>String(error)\<close> gives.
\<close>

datatype thrown = ErrorObj string | NonError string

text \<open>\<^verbatim>\<open>(error instanceof Error ? error : new Error(String(error))).message\<close>\<close>

fun errorMessage :: "thrown \<Rightarrow> string" where
  "errorMessage (ErrorObj m) = m"
| "errorMessage (NonError s) = s"

record WorkerResult =
  status :: status
  steps :: "BrowserStep list"
  extraction :: "payload option"
  error :: "string option"
  retryCount :: nat

section \<open>Strings\<close>

text \<open>
  Strings are lists of bytes. \<^verbatim>\<open>toLowerCase\<close> maps the letters A to Z to a to z and leaves
  every other byte; the completion phrases it is used with are plain ASCII.
\<close>

definition upperLower :: "(char \<times> char) list" where
  "upperLower = zip ''ABCDEFGHIJKLMNOPQRSTUVWXYZ'' ''abcdefghijklmnopqrstuvwxyz''"

definition lowerChar :: "char \<Rightarrow> char" where
  "lowerChar c = (case map_of upperLower c of Some d \<Rightarrow> d | None \<Rightarrow> c)"

definition toLowerCase :: "string \<Rightarrow> string" where
  "toLowerCase s = map lowerChar s"

text \<open>\<^verbatim>\<open>s.includes(sub)\<close>: \<open>sub\<close> occurs in \<open>s\<close> as a contiguous run.\<close>

fun str_includes :: "string \<Rightarrow> string \<Rightarrow> bool" where
  "str_includes [] sub = (sub = [])"
| "str_includes (c # cs) sub = (take (length sub) (c # cs) = sub \<or> str_includes cs sub)"

fun showNat :: "nat \<Rightarrow> string" where
  "showNat n = (if n < 10 then [''0123456789'' ! n]
                else showNat (n div 10) @ [''0123456789'' ! (n mod 10)])"

declare showNat.simps [simp del]

fun toolName :: "tool \<Rightarrow> string" where
  "toolName GOTO = ''GOTO''"
| "toolName ACT = ''ACT''"
| "toolName EXTRACT = ''EXTRACT''"
| "toolName OBSERVE = ''OBSERVE''"
| "toolName CLOSE = ''CLOSE''"
| "toolName WAIT = ''WAIT''"
| "toolName NAVBACK = ''NAVBACK''"
| "toolName SCREENSHOT = ''SCREENSHOT''"
| "toolName DONE = ''DONE''"
| "toolName FAIL = ''FAIL''"

section \<open>The external collaborators and the effects of a run\<close>

text \<open>
  What \<^verbatim>\<open>getNextStep\<close> hands to the language model: the step history, the current URL, the
  carried extraction and the screenshot (the goal strings are fixed for a run and are part of
  the oracle itself).
\<close>

record oracle_request =
  previousSteps :: "BrowserStep list"
  currentUrl :: string
  previousExtraction :: payload
  screenshot :: payload

text \<open>
  The two collaborators act on a hidden world \<open>'w\<close>: \<open>generateObject\<close> is the call to the
  language model (it returns a step that fits the schema, or throws), \<open>stagehand\<close> is the
  browser part of \<^verbatim>\<open>runStagehand\<close> (it returns the tool's payload, or throws).
\<close>

record 'w env =
  generateObject :: "'w \<Rightarrow> oracle_request \<Rightarrow> (thrown + BrowserStep) \<times> 'w"
  stagehand :: "'w \<Rightarrow> tool \<Rightarrow> string \<Rightarrow> (thrown + payload) \<times> 'w"

text \<open>
  The effects of a run, in order: a decision requested from the oracle, a call of
  \<^verbatim>\<open>runStagehand\<close> with its method and instruction, and the two one-second pauses.
\<close>

datatype event = Decision | Actuate tool string | PauseAfterRepeat | PauseBeforeRetry

text \<open>The local variables of \<^verbatim>\<open>executeSubtask\<close>, the event trace and the world.\<close>

record 'w state =
  l_steps :: "BrowserStep list"
  l_extraction :: payload
  l_retryCount :: nat
  l_lastError :: "thrown option"
  l_currentScreenshot :: payload
  l_recentActionHistory :: "(tool \<times> string) list"
  l_currentUrl :: string
  l_previousExtraction :: payload
  l_isSubtaskComplete :: bool
  l_events :: "event list"
  l_world :: 'w

definition MAX_STEPS :: nat where "MAX_STEPS = 15"
definition MAX_HISTORY :: nat where "MAX_HISTORY = 5"
definition MAX_DUPLICATES :: nat where "MAX_DUPLICATES = 2"

section \<open>runStagehand and executeStep\<close>

definition runStagehand :: "'w env \<Rightarrow> tool \<Rightarrow> string \<Rightarrow> 'w state \<Rightarrow> (thrown + payload) \<times> 'w state" where
  "runStagehand env method instr s =
     (let s1 = s\<lparr>l_events := l_events s @ [Actuate method instr]\<rparr> in
      if method = DONE then (Inr (Obj ''DONE''), s1)
      else if method = FAIL then (Inr (Obj ''FAILED''), s1)
      else (case stagehand env (l_world s1) method instr of
              (r, w') \<Rightarrow> (r, s1\<lparr>l_world := w'\<rparr>)))"

definition executeStep :: "'w env \<Rightarrow> BrowserStep \<Rightarrow> 'w state \<Rightarrow> (thrown + payload) \<times> 'w state" where
  "executeStep env step s = runStagehand env (tool step) (instruction step) s"

definition screenshotStep :: "string \<Rightarrow> string \<Rightarrow> BrowserStep" where
  "screenshotStep t r = \<lparr>text = t, reasoning = r, tool = SCREENSHOT, instruction = ''''\<rparr>"

text \<open>
  \<^verbatim>\<open>try { currentScreenshot = await executeStep(...) } catch (e) { console.warn(...) }\<close>:
  a failed capture keeps the previous screenshot.
\<close>

definition refreshScreenshot :: "'w env \<Rightarrow> string \<Rightarrow> string \<Rightarrow> 'w state \<Rightarrow> 'w state" where
  "refreshScreenshot env t r s =
     (case executeStep env (screenshotStep t r) s of
        (Inr p, s') \<Rightarrow> s'\<lparr>l_currentScreenshot := p\<rparr>
      | (Inl e, s') \<Rightarrow> s')"

text \<open>The initial capture sets the screenshot to \<^verbatim>\<open>null\<close> when it fails.\<close>

definition initialScreenshot :: "'w env \<Rightarrow> 'w state \<Rightarrow> 'w state" where
  "initialScreenshot env s =
     (case executeStep env (screenshotStep ''Capturing page screenshot''
                              ''Need visual context of current state'') s of
        (Inr p, s') \<Rightarrow> s'\<lparr>l_currentScreenshot := p\<rparr>
      | (Inl e, s') \<Rightarrow> s'\<lparr>l_currentScreenshot := Null\<rparr>)"

text \<open>The refresh of \<^verbatim>\<open>currentUrl\<close> after GOTO and NAVBACK; a failure keeps the old value.\<close>

definition refreshUrl :: "'w env \<Rightarrow> 'w state \<Rightarrow> 'w state" where
  "refreshUrl env s =
     (case executeStep env \<lparr>text = ''Getting current URL after navigation'',
                            reasoning = ''Need to update current state'',
                            tool = EXTRACT,
                            instruction = ''return document.location.href''\<rparr> s of
        (Inr (Str u), s') \<Rightarrow> s'\<lparr>l_currentUrl := u\<rparr>
      | (Inr (Arr xs), s') \<Rightarrow> (case xs of [] \<Rightarrow> s' | x # _ \<Rightarrow> s'\<lparr>l_currentUrl := x\<rparr>)
      | (Inr _, s') \<Rightarrow> s'
      | (Inl e, s') \<Rightarrow> s')"

section \<open>getNextStep\<close>

definition completionPhrases :: "string list" where
  "completionPhrases = [''task complete'', ''goal achieved'', ''subtask complete'']"

definition hasCompletionPhrase :: "BrowserStep \<Rightarrow> bool" where
  "hasCompletionPhrase st =
     ((\<exists>p \<in> set completionPhrases. str_includes (toLowerCase (text st)) p) \<or>
      (\<exists>p \<in> set completionPhrases. str_includes (toLowerCase (reasoning st)) p))"

definition convertedDone :: "BrowserStep \<Rightarrow> BrowserStep" where
  "convertedDone nextStep =
     \<lparr>text = ''Subtask completed successfully'',
      reasoning = ''The goal for this subtask has been achieved'',
      tool = DONE,
      instruction = ''Subtask complete: '' @ text nextStep\<rparr>"

definition fallbackStep :: BrowserStep where
  "fallbackStep =
     \<lparr>text = ''Failed to determine next step, taking a screenshot to reassess'',
      reasoning = ''Error occurred in step generation, need to capture current state to recover'',
      tool = SCREENSHOT,
      instruction = ''''\<rparr>"

text \<open>
  What \<^verbatim>\<open>getNextStep\<close> makes of the oracle's answer: a thrown fault becomes the screenshot
  fallback, completion language without the DONE tool becomes a DONE step. Building the
  prompt text before the call is string interpolation and is taken not to throw, so
  \<^verbatim>\<open>getNextStep\<close> itself never throws.
\<close>

definition postprocess :: "thrown + BrowserStep \<Rightarrow> BrowserStep" where
  "postprocess r =
     (case r of
        Inl e \<Rightarrow> fallbackStep
      | Inr nextStep \<Rightarrow>
          if tool nextStep \<noteq> DONE \<and> hasCompletionPhrase nextStep
          then convertedDone nextStep else nextStep)"

definition requestOf :: "'w state \<Rightarrow> oracle_request" where
  "requestOf s = \<lparr>previousSteps = l_steps s, currentUrl = l_currentUrl s,
                  previousExtraction = l_previousExtraction s,
                  screenshot = l_currentScreenshot s\<rparr>"

definition getNextStep :: "'w env \<Rightarrow> 'w state \<Rightarrow> BrowserStep \<times> 'w state" where
  "getNextStep env s =
     (case generateObject env (l_world s) (requestOf s) of
        (r, w') \<Rightarrow> (postprocess r, s\<lparr>l_events := l_events s @ [Decision], l_world := w'\<rparr>))"

section \<open>The execution loop\<close>

definition pairOf :: "BrowserStep \<Rightarrow> tool \<times> string" where
  "pairOf st = (tool st, instruction st)"

definition isRepeatingAction :: "BrowserStep \<Rightarrow> 'w state \<Rightarrow> bool \<times> 'w state" where
  "isRepeatingAction step s =
     (let duplicate = length (filter (\<lambda>h. h = pairOf step) (l_recentActionHistory s));
          pushed = l_recentActionHistory s @ [pairOf step];
          kept = (if length pushed > MAX_HISTORY then tl pushed else pushed)
      in (duplicate \<ge> MAX_DUPLICATES, s\<lparr>l_recentActionHistory := kept\<rparr>))"

definition waitStep :: BrowserStep where
  "waitStep = \<lparr>text = ''Detected repeated action'',
               reasoning = ''The same action was attempted multiple times without progress'',
               tool = WAIT,
               instruction = ''Pausing to reassess strategy''\<rparr>"

definition doneStep :: "string \<Rightarrow> BrowserStep" where
  "doneStep why = \<lparr>text = ''Marking subtask as complete'', reasoning = why, tool = DONE,
                   instruction = ''Subtask successfully completed''\<rparr>"

definition failStep :: "string \<Rightarrow> string \<Rightarrow> BrowserStep" where
  "failStep why msg = \<lparr>text = ''Marking subtask as failed'', reasoning = why, tool = FAIL,
                       instruction = msg\<rparr>"

definition doneResult :: "'w state \<Rightarrow> WorkerResult" where
  "doneResult s = \<lparr>status = Status_DONE, steps = l_steps s,
                   extraction = Some (l_extraction s), error = None,
                   retryCount = l_retryCount s\<rparr>"

definition failedResult :: "string \<Rightarrow> 'w state \<Rightarrow> WorkerResult" where
  "failedResult msg s = \<lparr>status = Status_FAILED, steps = l_steps s,
                         extraction = None, error = Some msg,
                         retryCount = l_retryCount s\<rparr>"

definition push :: "BrowserStep \<Rightarrow> 'w state \<Rightarrow> 'w state" where
  "push st s = s\<lparr>l_steps := l_steps s @ [st]\<rparr>"

text \<open>
  The \<^verbatim>\<open>return\<close> statements of \<^verbatim>\<open>executeSubtask\<close>, in source order: seven inside the loop
  body, the one after the loop, and the one of the outer \<^verbatim>\<open>catch\<close>.
\<close>

datatype exit_point =
    AtMaxSteps | AtExplicitDone | AtExplicitFail | AtRepeatRetries | AtCompletionText
  | AtClose | AtFaultRetries | AfterLoop | AtFatal

text \<open>
  How the \<^verbatim>\<open>try\<close> block of one loop iteration ends: it returns a result, it throws, or it
  reaches its end or a \<^verbatim>\<open>continue\<close> and the loop goes on.
\<close>

datatype 'w body = Returned exit_point WorkerResult "'w state" | Thrown thrown "'w state" | GoOn "'w state"

definition afterAction :: "'w env \<Rightarrow> BrowserStep \<Rightarrow> payload \<Rightarrow> 'w state \<Rightarrow> 'w state" where
  "afterAction env nextStep result s =
     (let s1 = (if tool nextStep = EXTRACT \<and> truthy result
                then s\<lparr>l_extraction := result, l_previousExtraction := result\<rparr> else s);
          s2 = (if tool nextStep = GOTO \<or> tool nextStep = NAVBACK then refreshUrl env s1 else s1)
      in if tool nextStep \<noteq> SCREENSHOT
         then refreshScreenshot env ''Capturing updated screenshot''
                ''Need updated visual context after action'' s2
         else s2\<lparr>l_currentScreenshot := result\<rparr>)"

definition onRepeat :: "'w env \<Rightarrow> nat \<Rightarrow> BrowserStep \<Rightarrow> 'w state \<Rightarrow> 'w body" where
  "onRepeat env maxRetries nextStep s =
     (let s1 = s\<lparr>l_retryCount := l_retryCount s + 1\<rparr> in
      if l_retryCount s1 \<ge> maxRetries
      then Returned AtRepeatRetries
             (failedResult (''Failed due to repeating the same action ('' @ toolName (tool nextStep)
                            @ '') '' @ showNat (l_retryCount s1) @ '' times'') s1) s1
      else (let s2 = push waitStep s1;
                s3 = refreshScreenshot env ''Capturing fresh screenshot''
                       ''Need updated visual context to break loop'' s2
            in GoOn (s3\<lparr>l_events := l_events s3 @ [PauseAfterRepeat]\<rparr>)))"

definition onFresh :: "'w env \<Rightarrow> BrowserStep \<Rightarrow> 'w state \<Rightarrow> 'w body" where
  "onFresh env nextStep s =
     (let s1 = push nextStep s in
      if hasCompletionPhrase nextStep
      then (let s2 = push (doneStep ''Based on completion signals in previous step'') s1
            in Returned AtCompletionText (doneResult s2) s2)
      else if tool nextStep \<noteq> CLOSE
      then (case executeStep env nextStep s1 of
              (Inl e, s2) \<Rightarrow> Thrown e s2
            | (Inr result, s2) \<Rightarrow> GoOn (afterAction env nextStep result s2))
      else (let s2 = push (doneStep ''Based on CLOSE request from agent'') s1
            in Returned AtClose (doneResult s2) s2))"

definition tryBlock :: "'w env \<Rightarrow> nat \<Rightarrow> 'w state \<Rightarrow> 'w body" where
  "tryBlock env maxRetries s =
     (if length (l_steps s) \<ge> MAX_STEPS
      then Returned AtMaxSteps
             (failedResult (''Exceeded maximum number of steps ('' @ showNat MAX_STEPS @ '')'') s) s
      else (case getNextStep env s of
              (nextStep, s1) \<Rightarrow>
                if tool nextStep = DONE
                then (let s2 = push nextStep s1 in Returned AtExplicitDone (doneResult s2) s2)
                else if tool nextStep = FAIL
                then (let s2 = push nextStep s1
                      in Returned AtExplicitFail (failedResult (instruction nextStep) s2) s2)
                else (case isRepeatingAction nextStep s1 of
                        (True, s2) \<Rightarrow> onRepeat env maxRetries nextStep s2
                      | (False, s2) \<Rightarrow> onFresh env nextStep s2)))"

definition catchBlock :: "'w env \<Rightarrow> nat \<Rightarrow> thrown \<Rightarrow> 'w state \<Rightarrow> 'w body" where
  "catchBlock env maxRetries e s =
     (let s1 = s\<lparr>l_lastError := Some e, l_retryCount := l_retryCount s + 1\<rparr> in
      if l_retryCount s1 \<ge> maxRetries
      then (let s2 = push (failStep ''Exceeded maximum retry attempts'' (errorMessage e)) s1
            in Returned AtFaultRetries (failedResult (errorMessage e) s2) s2)
      else (let s2 = s1\<lparr>l_events := l_events s1 @ [PauseBeforeRetry]\<rparr>
            in GoOn (refreshScreenshot env ''Capturing recovery screenshot''
                       ''Need visual context before retry attempt'' s2)))"

text \<open>One pass through the body of the \<^verbatim>\<open>while\<close> loop: the \<^verbatim>\<open>try\<close> block, then its handler.\<close>

definition iteration :: "'w env \<Rightarrow> nat \<Rightarrow> 'w state \<Rightarrow> 'w body" where
  "iteration env maxRetries s =
     (case tryBlock env maxRetries s of
        Thrown e s' \<Rightarrow> catchBlock env maxRetries e s'
      | b \<Rightarrow> b)"

subsection \<open>What one iteration leaves unchanged\<close>

lemma runStagehand_frame:
  "runStagehand env m i s = (r, s') \<Longrightarrow>
     l_steps s' = l_steps s \<and> l_retryCount s' = l_retryCount s \<and>
     l_recentActionHistory s' = l_recentActionHistory s \<and>
     l_isSubtaskComplete s' = l_isSubtaskComplete s \<and>
     l_events s' = l_events s @ [Actuate m i]"
  by (auto simp: runStagehand_def Let_def split: if_splits prod.splits)

lemma executeStep_frame:
  "executeStep env st s = (r, s') \<Longrightarrow>
     l_steps s' = l_steps s \<and> l_retryCount s' = l_retryCount s \<and>
     l_recentActionHistory s' = l_recentActionHistory s \<and>
     l_isSubtaskComplete s' = l_isSubtaskComplete s \<and>
     l_events s' = l_events s @ [Actuate (tool st) (instruction st)]"
  unfolding executeStep_def by (drule runStagehand_frame) auto

lemma refreshScreenshot_frame:
  "l_steps (refreshScreenshot env t r s) = l_steps s \<and>
   l_retryCount (refreshScreenshot env t r s) = l_retryCount s \<and>
   l_recentActionHistory (refreshScreenshot env t r s) = l_recentActionHistory s \<and>
   l_isSubtaskComplete (refreshScreenshot env t r s) = l_isSubtaskComplete s \<and>
   l_events (refreshScreenshot env t r s) = l_events s @ [Actuate SCREENSHOT '''']"
proof (cases "executeStep env (screenshotStep t r) s")
  case (Pair a s')
  from executeStep_frame[OF Pair] show ?thesis
    unfolding refreshScreenshot_def Pair by (cases a) (simp_all add: screenshotStep_def)
qed

lemma initialScreenshot_frame:
  "l_steps (initialScreenshot env s) = l_steps s \<and>
   l_retryCount (initialScreenshot env s) = l_retryCount s \<and>
   l_recentActionHistory (initialScreenshot env s) = l_recentActionHistory s \<and>
   l_isSubtaskComplete (initialScreenshot env s) = l_isSubtaskComplete s \<and>
   l_events (initialScreenshot env s) = l_events s @ [Actuate SCREENSHOT '''']"
proof (cases "executeStep env (screenshotStep ''Capturing page screenshot''
                              ''Need visual context of current state'') s")
  case (Pair a s')
  from executeStep_frame[OF Pair] show ?thesis
    unfolding initialScreenshot_def Pair by (cases a) (simp_all add: screenshotStep_def)
qed

lemma refreshUrl_frame:
  "l_steps (refreshUrl env s) = l_steps s \<and>
   l_retryCount (refreshUrl env s) = l_retryCount s \<and>
   l_recentActionHistory (refreshUrl env s) = l_recentActionHistory s \<and>
   l_isSubtaskComplete (refreshUrl env s) = l_isSubtaskComplete s \<and>
   l_events (refreshUrl env s) = l_events s @ [Actuate EXTRACT ''return document.location.href'']"
proof (cases "executeStep env \<lparr>text = ''Getting current URL after navigation'',
                            reasoning = ''Need to update current state'',
                            tool = EXTRACT,
                            instruction = ''return document.location.href''\<rparr> s")
  case (Pair a s')
  from executeStep_frame[OF Pair] show ?thesis
    unfolding refreshUrl_def Pair by (simp split: sum.splits payload.splits list.splits)
qed

lemma afterAction_frame:
  "l_steps (afterAction env st p s) = l_steps s \<and>
   l_retryCount (afterAction env st p s) = l_retryCount s \<and>
   l_recentActionHistory (afterAction env st p s) = l_recentActionHistory s \<and>
   l_isSubtaskComplete (afterAction env st p s) = l_isSubtaskComplete s"
  by (simp add: afterAction_def Let_def refreshScreenshot_frame refreshUrl_frame)

lemma getNextStep_frame:
  "getNextStep env s = (st, s') \<Longrightarrow>
     l_steps s' = l_steps s \<and> l_retryCount s' = l_retryCount s \<and>
     l_recentActionHistory s' = l_recentActionHistory s \<and>
     l_isSubtaskComplete s' = l_isSubtaskComplete s \<and>
     l_events s' = l_events s @ [Decision]"
  by (auto simp: getNextStep_def split: prod.splits)

lemma isRepeatingAction_frame:
  "isRepeatingAction st s = (b, s') \<Longrightarrow>
     l_steps s' = l_steps s \<and> l_retryCount s' = l_retryCount s \<and>
     l_isSubtaskComplete s' = l_isSubtaskComplete s \<and>
     l_events s' = l_events s"
  by (auto simp: isRepeatingAction_def Let_def)

lemma onRepeat_GoOn:
  "onRepeat env m st s = GoOn s' \<Longrightarrow>
     l_steps s' = l_steps s @ [waitStep] \<and> l_isSubtaskComplete s' = l_isSubtaskComplete s"
  by (auto simp: onRepeat_def Let_def push_def refreshScreenshot_frame split: if_splits)

lemma onRepeat_not_Thrown: "onRepeat env m st s \<noteq> Thrown e s'"
  by (simp add: onRepeat_def Let_def)

lemma onFresh_GoOn:
  "onFresh env st s = GoOn s' \<Longrightarrow>
     l_steps s' = l_steps s @ [st] \<and> l_isSubtaskComplete s' = l_isSubtaskComplete s"
  by (auto simp: onFresh_def Let_def push_def afterAction_frame
           split: if_splits prod.splits sum.splits dest!: executeStep_frame)

lemma onFresh_Thrown:
  "onFresh env st s = Thrown e s' \<Longrightarrow>
     l_steps s' = l_steps s @ [st] \<and> l_isSubtaskComplete s' = l_isSubtaskComplete s"
  by (auto simp: onFresh_def Let_def push_def
           split: if_splits prod.splits sum.splits dest!: executeStep_frame)

lemma tryBlock_GoOn:
  "tryBlock env m s = GoOn s' \<Longrightarrow>
     length (l_steps s) < MAX_STEPS \<and> length (l_steps s') = Suc (length (l_steps s)) \<and>
     l_isSubtaskComplete s' = l_isSubtaskComplete s"
  by (auto simp: tryBlock_def Let_def split: if_splits prod.splits bool.splits
           dest!: getNextStep_frame isRepeatingAction_frame onRepeat_GoOn onFresh_GoOn)

lemma tryBlock_Thrown:
  "tryBlock env m s = Thrown e s' \<Longrightarrow>
     length (l_steps s) < MAX_STEPS \<and> length (l_steps s') = Suc (length (l_steps s)) \<and>
     l_isSubtaskComplete s' = l_isSubtaskComplete s"
  by (auto simp: tryBlock_def Let_def onRepeat_not_Thrown split: if_splits prod.splits bool.splits
           dest!: getNextStep_frame isRepeatingAction_frame onFresh_Thrown)

lemma catchBlock_GoOn:
  "catchBlock env m e s = GoOn s' \<Longrightarrow>
     l_steps s' = l_steps s \<and> l_isSubtaskComplete s' = l_isSubtaskComplete s"
  by (auto simp: catchBlock_def Let_def refreshScreenshot_frame split: if_splits)



lemma iteration_GoOn:
  "iteration env m s = GoOn s' \<Longrightarrow>
     length (l_steps s) < MAX_STEPS \<and> length (l_steps s') = Suc (length (l_steps s)) \<and>
     l_isSubtaskComplete s' = l_isSubtaskComplete s"
  by (auto simp: iteration_def split: body.splits
           dest!: tryBlock_GoOn tryBlock_Thrown catchBlock_GoOn)

subsection \<open>The loop and executeSubtask\<close>

text \<open>The handler of the outer \<^verbatim>\<open>try\<close>: a final FAIL step and a FAILED result.\<close>

definition outerCatch :: "thrown \<Rightarrow> 'w state \<Rightarrow> WorkerResult \<times> 'w state" where
  "outerCatch e s =
     (let s1 = push (failStep ''Fatal error occurred'' (errorMessage e)) (s\<lparr>l_lastError := Some e\<rparr>)
      in (failedResult (errorMessage e) s1, s1))"

text \<open>
  \<^verbatim>\<open>while (!isSubtaskComplete) { try {...} catch (error) {...} }\<close> and the code after it.
  Every pass that does not return appends exactly one step, and a pass that starts with
  fifteen steps returns, which is why the loop ends.
\<close>

function whileLoop :: "'w env \<Rightarrow> nat \<Rightarrow> 'w state \<Rightarrow> exit_point \<times> WorkerResult \<times> 'w state" where
  "whileLoop env maxRetries s =
     (if l_isSubtaskComplete s
      then (let s1 = push (doneStep ''Reached the end of execution successfully'') s
            in (AfterLoop, doneResult s1, s1))
      else (case iteration env maxRetries s of
              Returned x r s' \<Rightarrow> (x, r, s')
            | Thrown e s' \<Rightarrow> (AtFatal, outerCatch e s')
            | GoOn s' \<Rightarrow> whileLoop env maxRetries s'))"
  by pat_completeness auto
termination
  by (relation "measure (\<lambda>(env, m, s). MAX_STEPS - length (l_steps s))")
     (auto dest!: iteration_GoOn)

declare whileLoop.simps [simp del]

definition initialState :: "'w \<Rightarrow> payload \<Rightarrow> 'w state" where
  "initialState w pe =
     \<lparr>l_steps = [], l_extraction = Null, l_retryCount = 0, l_lastError = None,
      l_currentScreenshot = Null, l_recentActionHistory = [], l_currentUrl = '''',
      l_previousExtraction = pe, l_isSubtaskComplete = False, l_events = [], l_world = w\<rparr>"

text \<open>
  The state at the first test of the loop condition: the URL lookup is a stub that throws
  and leaves \<^verbatim>\<open>'unknown'\<close>, then the initial screenshot is captured.
\<close>

definition startLoop :: "'w env \<Rightarrow> 'w \<Rightarrow> payload \<Rightarrow> 'w state" where
  "startLoop env w pe = initialScreenshot env ((initialState w pe)\<lparr>l_currentUrl := ''unknown''\<rparr>)"

text \<open>
  \<^verbatim>\<open>executeSubtask\<close> with the exit it returned from and the final state (events, world) kept;
  \<open>w\<close> is the world at the call, \<open>pe\<close> the \<^verbatim>\<open>previousExtraction\<close> argument.
\<close>

definition executeSubtaskTrace ::
  "'w env \<Rightarrow> nat \<Rightarrow> 'w \<Rightarrow> payload \<Rightarrow> exit_point \<times> WorkerResult \<times> 'w state" where
  "executeSubtaskTrace env maxRetries w pe = whileLoop env maxRetries (startLoop env w pe)"

definition executeSubtask :: "'w env \<Rightarrow> nat \<Rightarrow> 'w \<Rightarrow> payload \<Rightarrow> WorkerResult" where
  "executeSubtask env maxRetries w pe = fst (snd (executeSubtaskTrace env maxRetries w pe))"


text \<open>
  The states in which an execution tests the loop condition: the start state, and every
  state an iteration hands to the next one.
\<close>

inductive loopState :: "'w env \<Rightarrow> nat \<Rightarrow> 'w \<Rightarrow> payload \<Rightarrow> 'w state \<Rightarrow> bool"
  for env maxRetries w pe where
  first: "loopState env maxRetries w pe (startLoop env w pe)"
| onward: "loopState env maxRetries w pe s \<Longrightarrow> iteration env maxRetries s = GoOn s' \<Longrightarrow>
         loopState env maxRetries w pe s'"

section \<open>The EXECUTE_WORKER_TASK handler (route module)\<close>









section \<open>Plans and tasks (planner module; the task store after the spec)\<close>

text \<open>What the planning model returns for one subtask: the dependencies are 0-based indices.\<close>

record PlannedSubtask =
  p_description :: string
  p_goal :: string
  p_dependencies :: "int list option"

record Subtask =
  s_id :: string
  s_description :: string
  s_goal :: string
  s_dependencies :: "string list option"
  s_status :: status

definition showInt :: "int \<Rightarrow> string" where
  "showInt k = (if k < 0 then ''-'' @ showNat (nat (- k)) else showNat (nat k))"

text \<open>\<^verbatim>\<open>`subtask-${index + 1}`\<close>\<close>

definition subtaskName :: "int \<Rightarrow> string" where
  "subtaskName index = ''subtask-'' @ showInt (index + 1)"

text \<open>
  The transformation at the end of \<^verbatim>\<open>createTaskPlan\<close> (planner module): ids from the position,
  every declared index turned into an id, whatever its value, and the status PENDING.
\<close>

definition planSubtasks :: "PlannedSubtask list \<Rightarrow> Subtask list" where
  "planSubtasks planned =
     map (\<lambda>(subtask, index).
            \<lparr>s_id = subtaskName (int index),
             s_description = p_description subtask,
             s_goal = p_goal subtask,
             s_dependencies = map_option (map subtaskName) (p_dependencies subtask),
             s_status = Status_PENDING\<rparr>)
         (zip planned [0..<length planned])"

text \<open>
  Modelled from the spec: the Task of the task-manager module (not among the sources), with
  the fields the spec lists, and the two errors of the store.
\<close>

record Task =
  t_id :: string
  t_goal :: string
  t_summary :: string
  t_subtasks :: "Subtask list"
  t_status :: status
  t_sessionId :: string

datatype store_error = InvalidPlan | NotFound

text \<open>
  Modelled from the spec: the dependency indices a planned subtask declares (none when the
  field is absent), and the test that every declared index points at a subtask of the plan.
\<close>

definition declared :: "PlannedSubtask \<Rightarrow> int list" where
  "declared st = (case p_dependencies st of None \<Rightarrow> [] | Some ds \<Rightarrow> ds)"

definition inRange :: "PlannedSubtask list \<Rightarrow> bool" where
  "inRange planned =
     list_all (\<lambda>st. list_all (\<lambda>d. 0 \<le> d \<and> d < int (length planned)) (declared st)) planned"

text \<open>
  Modelled from the spec: the topological sort of \<^verbatim>\<open>createTask\<close> (task-manager module, not
  among the sources). Round after round, every subtask not yet placed whose dependencies are
  all placed is appended; as many rounds as there are subtasks are run.
\<close>

fun kahn :: "nat \<Rightarrow> nat list list \<Rightarrow> nat list \<Rightarrow> nat list" where
  "kahn 0 deps placed = placed"
| "kahn (Suc fuel) deps placed =
     kahn fuel deps
       (placed @ filter (\<lambda>i. i \<notin> set placed \<and> list_all (\<lambda>d. d \<in> set placed) (deps ! i))
                   [0..<length deps])"

text \<open>
  Modelled from the spec: the sort succeeds when every subtask has been placed (the check of
  \<^verbatim>\<open>createTask\<close>, task-manager module, not among the sources).
\<close>

definition topologicalSort :: "nat list list \<Rightarrow> nat list option" where
  "topologicalSort deps =
     (let placed = kahn (length deps) deps []
      in if length placed = length deps then Some placed else None)"

text \<open>
  Modelled from the spec: \<^verbatim>\<open>createTask(goal, plan, sessionId)\<close> of the task-manager module,
  which is not among the sources. It rejects an empty plan, a dependency index out of range
  and a dependency cycle with \<^verbatim>\<open>InvalidPlan\<close>; otherwise the task holds the subtasks with
  their ids, resolved dependencies and the status PENDING. The plan is given as its summary
  and its subtasks; \<open>newId\<close> is the identifier the store assigns to the task.
\<close>

definition createTask ::
  "string \<Rightarrow> string \<Rightarrow> string \<Rightarrow> PlannedSubtask list \<Rightarrow> string \<Rightarrow> store_error + Task" where
  "createTask newId goal summary planned sessionId =
     (if planned = [] then Inl InvalidPlan
      else if \<not> inRange planned then Inl InvalidPlan
      else if topologicalSort (map (\<lambda>st. map nat (declared st)) planned) = None then Inl InvalidPlan
      else Inr \<lparr>t_id = newId, t_goal = goal, t_summary = summary,
                t_subtasks = planSubtasks planned, t_status = Status_PENDING,
                t_sessionId = sessionId\<rparr>)"

section \<open>Scripted collaborators\<close>

text \<open>Small oracles and actuators on which the properties below are run.\<close>

definition clickStep :: BrowserStep where
  "clickStep = \<lparr>text = ''Click the button'', reasoning = ''It is there'', tool = ACT,
                instruction = ''click the button''\<rparr>"

text \<open>The oracle repeats one ACT step for ever; the browser never fails.\<close>

definition envSame :: "unit env" where
  "envSame = \<lparr>generateObject = (\<lambda>w req. (Inr clickStep, w)),
              stagehand = (\<lambda>w t i. (Inr Null, w))\<rparr>"



text \<open>The oracle reports completion in prose while asking for an ACT.\<close>

definition phraseStep :: BrowserStep where
  "phraseStep = \<lparr>text = ''Subtask complete: the price is on screen'', reasoning = ''Nothing more to do'',
                 tool = ACT, instruction = ''click the price''\<rparr>"

definition envPhrase :: "unit env" where
  "envPhrase = \<lparr>generateObject = (\<lambda>w req. (Inr phraseStep, w)),
                stagehand = (\<lambda>w t i. (Inr Null, w))\<rparr>"

text \<open>The oracle repeats one ACT step; every browser call throws.\<close>

definition envBoom :: "unit env" where
  "envBoom = \<lparr>generateObject = (\<lambda>w req. (Inr clickStep, w)),
              stagehand = (\<lambda>w t i. (Inl (ErrorObj ''boom''), w))\<rparr>"








text \<open>Three subtasks, the second and third depending on the first; and a cycle of two.\<close>

definition planABC :: "PlannedSubtask list" where
  "planABC =
     [\<lparr>p_description = ''Open the site'', p_goal = ''A'', p_dependencies = None\<rparr>,
      \<lparr>p_description = ''Find the price'', p_goal = ''B'', p_dependencies = Some [0]\<rparr>,
      \<lparr>p_description = ''Find the volume'', p_goal = ''C'', p_dependencies = Some [0]\<rparr>]"

definition planCycle :: "PlannedSubtask list" where
  "planCycle =
     [\<lparr>p_description = ''First'', p_goal = ''A'', p_dependencies = Some [1]\<rparr>,
      \<lparr>p_description = ''Second'', p_goal = ''B'', p_dependencies = Some [0]\<rparr>]"

section \<open>Conditions on the collaborators\<close>






section \<open>Invariants of the loop\<close>








section \<open>Dependency graphs\<close>

text \<open>Subtask \<open>i\<close> declares a dependency on subtask \<open>j\<close>.\<close>

definition dependsOn :: "PlannedSubtask list \<Rightarrow> (nat \<times> nat) set" where
  "dependsOn planned = {(i, j). i < length planned \<and> int j \<in> set (declared (planned ! i))}"

text \<open>
  The same on lists of indices, the bound on the indices, and one round of the sort on sets.
\<close>

definition edges :: "nat list list \<Rightarrow> (nat \<times> nat) set" where
  "edges deps = {(i, j). i < length deps \<and> j \<in> set (deps ! i)}"

definition closedDeps :: "nat list list \<Rightarrow> bool" where
  "closedDeps deps = (\<forall>i < length deps. \<forall>d \<in> set (deps ! i). d < length deps)"

definition grow :: "nat list list \<Rightarrow> nat set \<Rightarrow> nat set" where
  "grow deps S = S \<union> {i. i < length deps \<and> i \<notin> S \<and> set (deps ! i) \<subseteq> S}"

section \<open>Properties of the execution loop\<close>

subsection \<open>Exit points\<close>

lemma startLoop_flag: "\<not> l_isSubtaskComplete (startLoop env w pe)"
  by (simp add: startLoop_def initialScreenshot_frame initialState_def)

lemma loopState_flag: "loopState env m w pe s \<Longrightarrow> \<not> l_isSubtaskComplete s"
  by (induction rule: loopState.induct) (auto simp: startLoop_flag dest: iteration_GoOn)

lemma onRepeat_exit: "onRepeat env m st s = Returned x r s' \<Longrightarrow> x = AtRepeatRetries"
  by (simp add: onRepeat_def Let_def split: if_splits)

lemma onFresh_exit: "onFresh env st s = Returned x r s' \<Longrightarrow> x = AtCompletionText \<or> x = AtClose"
  by (simp add: onFresh_def Let_def split: if_splits prod.splits sum.splits)

lemma catchBlock_exit: "catchBlock env m e s = Returned x r s' \<Longrightarrow> x = AtFaultRetries"
  by (simp add: catchBlock_def Let_def split: if_splits)

lemma tryBlock_exit:
  "tryBlock env m s = Returned x r s' \<Longrightarrow>
     x \<in> {AtMaxSteps, AtExplicitDone, AtExplicitFail, AtRepeatRetries, AtCompletionText, AtClose}"
  by (auto simp: tryBlock_def Let_def split: if_splits prod.splits bool.splits
           dest: onRepeat_exit onFresh_exit)

lemma iteration_exit:
  "iteration env m s = Returned x r s' \<Longrightarrow>
     x \<in> {AtMaxSteps, AtExplicitDone, AtExplicitFail, AtRepeatRetries, AtCompletionText, AtClose,
          AtFaultRetries}"
  by (auto simp: iteration_def split: body.splits dest: tryBlock_exit catchBlock_exit)

lemma whileLoop_exit:
  "\<not> l_isSubtaskComplete s \<Longrightarrow> fst (whileLoop env m s) \<noteq> AfterLoop"
proof (induction env m s rule: whileLoop.induct)
  case (1 env m s)
  show ?case
  proof (cases "iteration env m s")
    case (Returned x r s')
    then have "x \<noteq> AfterLoop"
      by (auto dest: iteration_exit)
    with Returned 1(2) show ?thesis by (simp add: whileLoop.simps)
  next
    case (Thrown e s')
    with 1(2) show ?thesis by (simp add: whileLoop.simps)
  next
    case (GoOn s')
    with 1 iteration_GoOn[OF GoOn] show ?thesis by (simp add: whileLoop.simps)
  qed
qed

subsection \<open>Runs and loop states\<close>

lemma whileLoop_GoOn:
  "\<not> l_isSubtaskComplete s \<Longrightarrow> iteration env m s = GoOn s' \<Longrightarrow>
     whileLoop env m s = whileLoop env m s'"
  by (subst whileLoop.simps) simp

lemma whileLoop_Returned:
  "\<not> l_isSubtaskComplete s \<Longrightarrow> iteration env m s = Returned x r s' \<Longrightarrow>
     whileLoop env m s = (x, r, s')"
  by (subst whileLoop.simps) simp

lemma loopState_run:
  "loopState env m w pe s \<Longrightarrow> whileLoop env m s = executeSubtaskTrace env m w pe"
proof (induction rule: loopState.induct)
  case first
  show ?case by (simp add: executeSubtaskTrace_def)
next
  case (onward s s')
  from loopState_flag[OF onward(1)] onward(2) have "whileLoop env m s = whileLoop env m s'"
    by (rule whileLoop_GoOn)
  with onward(3) show ?case by simp
qed



subsection \<open>The branches of one iteration\<close>





lemma onFresh_Thrown_full:
  "onFresh env st s = Thrown e s' \<Longrightarrow>
     tool st \<noteq> CLOSE \<and> \<not> hasCompletionPhrase st \<and>
     executeStep env st (push st s) = (Inl e, s') \<and>
     l_steps s' = l_steps s @ [st] \<and> l_retryCount s' = l_retryCount s \<and>
     l_recentActionHistory s' = l_recentActionHistory s \<and>
     l_events s' = l_events s @ [Actuate (tool st) (instruction st)]"
proof -
  assume a: "onFresh env st s = Thrown e s'"
  then have t: "tool st \<noteq> CLOSE" "\<not> hasCompletionPhrase st"
    by (auto simp: onFresh_def Let_def split: if_splits)
  obtain res s2 where e: "executeStep env st (push st s) = (res, s2)" by (cases "executeStep env st (push st s)")
  with a t have p: "res = Inl e" "s' = s2"
    by (auto simp: onFresh_def Let_def split: sum.splits)
  from executeStep_frame[OF e] p t e show ?thesis
    by (simp add: push_def)
qed




lemma isRepeatingAction_full:
  "isRepeatingAction st s = (b, s') \<Longrightarrow>
     b = (MAX_DUPLICATES \<le> length (filter (\<lambda>h. h = pairOf st) (l_recentActionHistory s))) \<and>
     l_steps s' = l_steps s \<and> l_retryCount s' = l_retryCount s \<and>
     l_events s' = l_events s \<and>
     l_recentActionHistory s' =
       (if length (l_recentActionHistory s) < MAX_HISTORY then l_recentActionHistory s @ [pairOf st]
        else tl (l_recentActionHistory s @ [pairOf st]))"
  by (auto simp: isRepeatingAction_def Let_def)

lemma tryBlock_eq:
  "length (l_steps s) < MAX_STEPS \<Longrightarrow> getNextStep env s = (st, s1) \<Longrightarrow>
   isRepeatingAction st s1 = (b, s2) \<Longrightarrow>
     tryBlock env m s =
       (if tool st = DONE then Returned AtExplicitDone (doneResult (push st s1)) (push st s1)
        else if tool st = FAIL
        then Returned AtExplicitFail (failedResult (instruction st) (push st s1)) (push st s1)
        else if b then onRepeat env m st s2 else onFresh env st s2)"
  by (simp add: tryBlock_def Let_def)

lemma iteration_cases [consumes 1, case_names ExplicitDone ExplicitFail Repeat Fresh]:
  assumes "length (l_steps s) < MAX_STEPS"
  obtains
    (ExplicitDone) st s1 where "getNextStep env s = (st, s1)" "tool st = DONE"
      "iteration env m s = Returned AtExplicitDone (doneResult (push st s1)) (push st s1)"
  | (ExplicitFail) st s1 where "getNextStep env s = (st, s1)" "tool st = FAIL"
      "iteration env m s =
         Returned AtExplicitFail (failedResult (instruction st) (push st s1)) (push st s1)"
  | (Repeat) st s1 s2 where "getNextStep env s = (st, s1)" "tool st \<noteq> DONE" "tool st \<noteq> FAIL"
      "isRepeatingAction st s1 = (True, s2)" "iteration env m s = onRepeat env m st s2"
  | (Fresh) st s1 s2 where "getNextStep env s = (st, s1)" "tool st \<noteq> DONE" "tool st \<noteq> FAIL"
      "isRepeatingAction st s1 = (False, s2)"
      "iteration env m s =
         (case onFresh env st s2 of Thrown e s' \<Rightarrow> catchBlock env m e s' | b \<Rightarrow> b)"
proof -
  obtain st s1 where g: "getNextStep env s = (st, s1)" by (cases "getNextStep env s")
  obtain b s2 where r: "isRepeatingAction st s1 = (b, s2)" by (cases "isRepeatingAction st s1")
  note eq = tryBlock_eq[OF assms g r, of m]
  consider "tool st = DONE" | "tool st = FAIL" | "tool st \<noteq> DONE" "tool st \<noteq> FAIL" b
    | "tool st \<noteq> DONE" "tool st \<noteq> FAIL" "\<not> b" by blast
  then show thesis
  proof cases
    case 1
    with eq have "iteration env m s = Returned AtExplicitDone (doneResult (push st s1)) (push st s1)"
      by (simp add: iteration_def)
    with g 1 show ?thesis by (rule ExplicitDone)
  next
    case 2
    with eq have "iteration env m s =
        Returned AtExplicitFail (failedResult (instruction st) (push st s1)) (push st s1)"
      by (simp add: iteration_def)
    with g 2 show ?thesis by (rule ExplicitFail)
  next
    case 3
    with eq have "tryBlock env m s = onRepeat env m st s2" by simp
    then have "iteration env m s = onRepeat env m st s2"
      by (cases "onRepeat env m st s2") (simp_all add: iteration_def onRepeat_not_Thrown)
    with g 3 r show ?thesis by (auto intro: Repeat)
  next
    case 4
    with eq have "tryBlock env m s = onFresh env st s2" by simp
    then have "iteration env m s =
        (case onFresh env st s2 of Thrown e s' \<Rightarrow> catchBlock env m e s' | b \<Rightarrow> b)"
      by (simp add: iteration_def)
    with g 4 r show ?thesis by (auto intro: Fresh)
  qed
qed










lemma getNextStep_eq:
  "generateObject env (l_world s) (requestOf s) = (a, w') \<Longrightarrow>
     getNextStep env s = (postprocess a, s\<lparr>l_events := l_events s @ [Decision], l_world := w'\<rparr>)"
  by (simp add: getNextStep_def)


lemma startLoop_fields:
  "l_steps (startLoop env w pe) = [] \<and> l_retryCount (startLoop env w pe) = 0 \<and>
   l_recentActionHistory (startLoop env w pe) = [] \<and>
   l_events (startLoop env w pe) = [Actuate SCREENSHOT '''']"
  by (simp add: startLoop_def initialScreenshot_frame initialState_def)

subsection \<open>The step history only grows\<close>




subsection \<open>Faults and results\<close>

lemma fallback_no_phrase: "\<not> hasCompletionPhrase fallbackStep"
  by code_simp

lemma postprocess_no_phrase: "tool (postprocess a) \<noteq> DONE \<Longrightarrow> \<not> hasCompletionPhrase (postprocess a)"
  by (cases a) (auto simp: postprocess_def fallback_no_phrase convertedDone_def split: if_splits)

lemma getNextStep_no_phrase:
  "getNextStep env s = (st, s1) \<Longrightarrow> tool st \<noteq> DONE \<Longrightarrow> \<not> hasCompletionPhrase st"
  by (auto simp: getNextStep_def split: prod.splits dest: postprocess_no_phrase)



lemma fault_iteration:
  assumes "length (l_steps s) < MAX_STEPS" and "getNextStep env s = (st, s1)"
    and "tool st \<noteq> DONE" and "tool st \<noteq> FAIL" and "tool st \<noteq> CLOSE"
    and "isRepeatingAction st s1 = (False, s2)"
    and "executeStep env st (push st s2) = (Inl e, s3)"
  shows "iteration env m s = catchBlock env m e s3 \<and> l_steps s3 = l_steps s @ [st] \<and>
         l_retryCount s3 = l_retryCount s \<and>
         l_events s3 = l_events s @ [Decision, Actuate (tool st) (instruction st)]"
proof -
  have np: "\<not> hasCompletionPhrase st" by (rule getNextStep_no_phrase[OF assms(2,3)])
  have it: "iteration env m s =
      (case onFresh env st s2 of Thrown e s' \<Rightarrow> catchBlock env m e s' | b \<Rightarrow> b)"
    using assms(1)
    by (cases rule: iteration_cases[where env = env and m = m]) (insert assms(2-6), auto)
  have th: "onFresh env st s2 = Thrown e s3"
    using np assms(5,7) by (simp add: onFresh_def Let_def)
  from it th onFresh_Thrown_full[OF th] getNextStep_frame[OF assms(2)]
    isRepeatingAction_full[OF assms(6)]
  show ?thesis by simp
qed


subsection \<open>An oracle that never repeats itself\<close>








subsection \<open>Detected repetitions\<close>






subsection \<open>Decisions requested in a run\<close>





section \<open>Properties of the topological sort\<close>

text \<open>The sort places every subtask exactly when the dependency graph has no cycle.\<close>

lemma kahn_set: "set (kahn k deps S) = (grow deps ^^ k) (set S)"
proof (induction k arbitrary: S)
  case 0
  show ?case by simp
next
  case (Suc k)
  have "set (S @ filter (\<lambda>i. i \<notin> set S \<and> list_all (\<lambda>d. d \<in> set S) (deps ! i)) [0..<length deps])
        = grow deps (set S)"
    by (auto simp: grow_def list_all_iff)
  with Suc show ?case by (simp add: funpow_swap1)
qed

lemma kahn_distinct: "distinct S \<Longrightarrow> distinct (kahn k deps S)"
proof (induction k arbitrary: S)
  case 0
  then show ?case by simp
next
  case (Suc k)
  from Suc(2) have "distinct (S @ filter (\<lambda>i. i \<notin> set S \<and> list_all (\<lambda>d. d \<in> set S) (deps ! i))
                                 [0..<length deps])"
    by auto
  from Suc(1)[OF this] show ?case by simp
qed

lemma grow_mono: "S \<subseteq> grow deps S"
  by (auto simp: grow_def)

lemma grow_bound: "S \<subseteq> {..<length deps} \<Longrightarrow> grow deps S \<subseteq> {..<length deps}"
  by (auto simp: grow_def)

lemma funpow_grow_bound: "(grow deps ^^ k) {} \<subseteq> {..<length deps}"
  by (induction k) (auto dest: grow_bound[THEN subsetD, rotated])

lemma funpow_grow_mono: "j \<le> k \<Longrightarrow> (grow deps ^^ j) {} \<subseteq> (grow deps ^^ k) {}"
proof (induction k)
  case 0
  then show ?case by simp
next
  case (Suc k)
  show ?case
  proof (cases "j = Suc k")
    case True
    then show ?thesis by simp
  next
    case False
    with Suc have "(grow deps ^^ j) {} \<subseteq> (grow deps ^^ k) {}" by simp
    with grow_mono[where S = "(grow deps ^^ k) {}" and deps = deps] show ?thesis by auto
  qed
qed

lemma edges_finite: "closedDeps deps \<Longrightarrow> finite (edges deps)"
proof -
  assume "closedDeps deps"
  then have "edges deps \<subseteq> {..<length deps} \<times> {..<length deps}"
    by (auto simp: edges_def closedDeps_def)
  then show ?thesis by (rule finite_subset) simp
qed

lemma grow_progress:
  assumes cl: "closedDeps deps" and ac: "acyclic (edges deps)"
    and sub: "S \<subseteq> {..<length deps}" and ne: "S \<noteq> {..<length deps}"
  shows "S \<subset> grow deps S"
proof -
  from sub ne have "{..<length deps} - S \<noteq> {}" by auto
  moreover have "wf ((edges deps)\<inverse>)"
    using edges_finite[OF cl] ac by (rule finite_acyclic_wf_converse)
  ultimately obtain z where z: "z \<in> {..<length deps} - S"
    and min: "\<And>y. (y, z) \<in> (edges deps)\<inverse> \<Longrightarrow> y \<notin> {..<length deps} - S"
    using wfE_min'[of "(edges deps)\<inverse>" "{..<length deps} - S"] by blast
  have "set (deps ! z) \<subseteq> S"
  proof
    fix d assume d: "d \<in> set (deps ! z)"
    with z have "(z, d) \<in> edges deps" by (simp add: edges_def)
    with min have "d \<notin> {..<length deps} - S" by simp
    moreover from cl z d have "d < length deps" by (auto simp: closedDeps_def)
    ultimately show "d \<in> S" by simp
  qed
  with z have "z \<in> grow deps S" "z \<notin> S" by (simp_all add: grow_def)
  with grow_mono[where S = S and deps = deps] show ?thesis by auto
qed

lemma grow_card:
  assumes cl: "closedDeps deps" and ac: "acyclic (edges deps)"
  shows "k \<le> length deps \<Longrightarrow> k \<le> card ((grow deps ^^ k) {})"
proof (induction k)
  case 0
  show ?case by simp
next
  case (Suc k)
  let ?S = "(grow deps ^^ k) {}"
  have fin: "finite (grow deps ?S)"
    using funpow_grow_bound[where deps = deps and k = "Suc k"] by (auto intro: finite_subset)
  from Suc have k: "k \<le> card ?S" by simp
  show ?case
  proof (cases "?S = {..<length deps}")
    case True
    with grow_mono[where S = ?S and deps = deps] funpow_grow_bound[where deps = deps and k = "Suc k"]
    have "(grow deps ^^ Suc k) {} = {..<length deps}" by auto
    with Suc(2) show ?thesis by simp
  next
    case False
    from grow_progress[OF cl ac funpow_grow_bound False] fin
    have "card ?S < card (grow deps ?S)" by (rule psubset_card_mono[rotated])
    with k show ?thesis by simp
  qed
qed

lemma grow_rank:
  assumes full: "(grow deps ^^ k) {} = {..<length deps}"
  shows "acyclic (edges deps)"
proof -
  define rank where "rank i = (LEAST j. i \<in> (grow deps ^^ j) {})" for i
  have lower: "rank d < rank i" if e: "(i, d) \<in> edges deps" for i d
  proof -
    from e have i: "i < length deps" and d: "d \<in> set (deps ! i)" by (simp_all add: edges_def)
    from i full have ex: "i \<in> (grow deps ^^ k) {}" by simp
    then have in_rank: "i \<in> (grow deps ^^ rank i) {}" unfolding rank_def by (rule LeastI)
    have "rank i \<noteq> 0"
    proof
      assume "rank i = 0"
      with in_rank show False by simp
    qed
    then obtain j where j: "rank i = Suc j" by (cases "rank i") auto
    have "i \<notin> (grow deps ^^ j) {}"
    proof
      assume "i \<in> (grow deps ^^ j) {}"
      then have "rank i \<le> j" unfolding rank_def by (rule Least_le)
      with j show False by simp
    qed
    with in_rank j have "set (deps ! i) \<subseteq> (grow deps ^^ j) {}" by (auto simp: grow_def)
    with d have "d \<in> (grow deps ^^ j) {}" by auto
    then have "rank d \<le> j" unfolding rank_def by (rule Least_le)
    with j show ?thesis by simp
  qed
  then have "(edges deps)\<inverse> \<subseteq> measure rank" by auto
  then have "wf ((edges deps)\<inverse>)" by (rule wf_subset[OF wf_measure])
  then have "acyclic ((edges deps)\<inverse>)" by (rule wf_acyclic)
  then show ?thesis by simp
qed

lemma topologicalSort_acyclic:
  assumes "closedDeps deps"
  shows "topologicalSort deps \<noteq> None \<longleftrightarrow> acyclic (edges deps)"
proof -
  let ?S = "(grow deps ^^ length deps) {}"
  have len: "length (kahn (length deps) deps []) = card ?S"
    using kahn_distinct[where S = "[]" and k = "length deps" and deps = deps]
      kahn_set[where k = "length deps" and deps = deps and S = "[]"]
    by (simp add: distinct_card[symmetric])
  have sub: "?S \<subseteq> {..<length deps}" by (rule funpow_grow_bound)
  show ?thesis
  proof
    assume "topologicalSort deps \<noteq> None"
    then have "card ?S = length deps" using len by (simp add: topologicalSort_def Let_def split: if_splits)
    with sub have "?S = {..<length deps}" by (simp add: card_subset_eq)
    then show "acyclic (edges deps)" by (rule grow_rank)
  next
    assume "acyclic (edges deps)"
    from grow_card[OF assms this, where k = "length deps"] have "length deps \<le> card ?S" by simp
    moreover from sub have "card ?S \<le> length deps"
      using card_mono[of "{..<length deps}" ?S] by simp
    ultimately show "topologicalSort deps \<noteq> None"
      using len by (simp add: topologicalSort_def Let_def)
  qed
qed

lemma declared_edges:
  assumes "inRange planned"
  shows "closedDeps (map (\<lambda>st. map nat (declared st)) planned) \<and>
         edges (map (\<lambda>st. map nat (declared st)) planned) = dependsOn planned"
proof -
  have r: "0 \<le> d \<and> d < int (length planned)"
    if "i < length planned" "d \<in> set (declared (planned ! i))" for i d
    using assms that by (auto simp: inRange_def list_all_iff)
  have "closedDeps (map (\<lambda>st. map nat (declared st)) planned)"
    using r by (fastforce simp: closedDeps_def)
  moreover have "edges (map (\<lambda>st. map nat (declared st)) planned) = dependsOn planned"
  proof (rule set_eqI, clarify)
    fix i j
    show "(i, j) \<in> edges (map (\<lambda>st. map nat (declared st)) planned) \<longleftrightarrow> (i, j) \<in> dependsOn planned"
    proof (cases "i < length planned")
      case False
      then show ?thesis by (simp add: edges_def dependsOn_def)
    next
      case True
      have "j \<in> nat ` set (declared (planned ! i)) \<longleftrightarrow> int j \<in> set (declared (planned ! i))"
      proof
        assume "j \<in> nat ` set (declared (planned ! i))"
        then obtain d where d: "d \<in> set (declared (planned ! i))" "j = nat d" by blast
        with r[OF True d(1)] show "int j \<in> set (declared (planned ! i))" by simp
      next
        assume "int j \<in> set (declared (planned ! i))"
        then have "nat (int j) \<in> nat ` set (declared (planned ! i))" by (rule imageI)
        then show "j \<in> nat ` set (declared (planned ! i))" by simp
      qed
      with True show ?thesis by (simp add: edges_def dependsOn_def)
    qed
  qed
  ultimately show ?thesis by simp
qed

lemma topologicalSort_dependsOn:
  "inRange planned \<Longrightarrow>
     topologicalSort (map (\<lambda>st. map nat (declared st)) planned) \<noteq> None \<longleftrightarrow>
     acyclic (dependsOn planned)"
  using declared_edges[of planned] topologicalSort_acyclic by fastforce

lemma planSubtasks_nth:
  "i < length planned \<Longrightarrow>
     planSubtasks planned ! i =
       \<lparr>s_id = subtaskName (int i),
        s_description = p_description (planned ! i),
        s_goal = p_goal (planned ! i),
        s_dependencies = map_option (map subtaskName) (p_dependencies (planned ! i)),
        s_status = Status_PENDING\<rparr>"
  by (simp add: planSubtasks_def)

lemma subtaskName_nat: "subtaskName (int i) = ''subtask-'' @ showNat (i + 1)"
  by (simp add: subtaskName_def showInt_def nat_add_distrib)

section \<open>The claims\<close>









text \<open>
  C4. Whenever the oracle's answer carries one of the completion phrases ("task complete",
  "goal achieved", "subtask complete", in any letter case) in its text or reasoning while its
  tool is not DONE, the run ends in that iteration: \<^verbatim>\<open>getNextStep\<close> replaces the answer by a
  synthetic DONE step, the loop appends it and returns DONE, and the only event of the
  iteration is the decision, so the answer's action is never sent to the actuator.
\<close>

theorem C4_implicit_completion:
  assumes "loopState env maxRetries w pe s" and "length (l_steps s) < MAX_STEPS"
    and "generateObject env (l_world s) (requestOf s) = (Inr raw, w')"
    and "tool raw \<noteq> DONE" and "hasCompletionPhrase raw"
  shows "\<exists>r s'. executeSubtaskTrace env maxRetries w pe = (AtExplicitDone, r, s') \<and>
           status r = Status_DONE \<and> steps r = l_steps s @ [convertedDone raw] \<and>
           tool (convertedDone raw) = DONE \<and> l_events s' = l_events s @ [Decision]"
proof -
  from assms(4,5) have pp: "postprocess (Inr raw) = convertedDone raw" by (simp add: postprocess_def)
  have td: "tool (convertedDone raw) = DONE" by (simp add: convertedDone_def)
  from assms(2) have "\<exists>r s'. iteration env maxRetries s = Returned AtExplicitDone r s' \<and>
           status r = Status_DONE \<and> steps r = l_steps s @ [convertedDone raw] \<and>
           l_events s' = l_events s @ [Decision]"
  proof (cases rule: iteration_cases[where env = env and m = maxRetries])
    case (ExplicitDone st s1)
    with getNextStep_eq[OF assms(3)] pp show ?thesis
      by (auto simp: doneResult_def push_def)
  qed (insert getNextStep_eq[OF assms(3)] pp td, auto)
  then obtain r s' where it: "iteration env maxRetries s = Returned AtExplicitDone r s'"
    and rest: "status r = Status_DONE" "steps r = l_steps s @ [convertedDone raw]"
      "l_events s' = l_events s @ [Decision]" by blast
  from whileLoop_Returned[OF loopState_flag[OF assms(1)] it] loopState_run[OF assms(1)]
  have "executeSubtaskTrace env maxRetries w pe = (AtExplicitDone, r, s')" by simp
  with rest td show ?thesis by blast
qed

lemma phraseStep_phrase: "hasCompletionPhrase phraseStep"
  by (simp add: hasCompletionPhrase_def phraseStep_def completionPhrases_def toLowerCase_def
        lowerChar_def upperLower_def)

theorem C4_witness:
  "status (executeSubtask envPhrase 3 () Null) = Status_DONE \<and>
   steps (executeSubtask envPhrase 3 () Null) = [convertedDone phraseStep] \<and>
   l_events (snd (snd (executeSubtaskTrace envPhrase 3 () Null))) = [Actuate SCREENSHOT '''', Decision]"
proof -
  let ?s = "startLoop envPhrase () Null"
  have "generateObject envPhrase (l_world ?s) (requestOf ?s) = (Inr phraseStep, ())"
    by (simp add: envPhrase_def)
  moreover have "length (l_steps ?s) < MAX_STEPS" by (simp add: startLoop_fields MAX_STEPS_def)
  moreover have "tool phraseStep \<noteq> DONE" by (simp add: phraseStep_def)
  ultimately show ?thesis
    using C4_implicit_completion[OF loopState.first, of envPhrase "()" Null phraseStep "()" 3]
      phraseStep_phrase
    by (auto simp: startLoop_fields executeSubtask_def)
qed

text \<open>
  C5 (amended). When the actuator throws while executing a step, the retry counter is
  incremented. If it has reached \<^verbatim>\<open>maxRetries\<close>, the loop appends a synthetic FAIL step whose
  instruction is the fault's message and returns FAILED with that message as its error.
  Otherwise no step is appended for the fault: the loop pauses, captures a recovery screenshot
  (best effort) and goes on to its next iteration.
\<close>

theorem C5_actuator_fault:
  assumes "length (l_steps s) < MAX_STEPS" and "getNextStep env s = (st, s1)"
    and "tool st \<noteq> DONE" and "tool st \<noteq> FAIL" and "tool st \<noteq> CLOSE"
    and "isRepeatingAction st s1 = (False, s2)"
    and "executeStep env st (push st s2) = (Inl e, s3)"
  shows "(maxRetries \<le> l_retryCount s + 1 \<longrightarrow>
            (\<exists>r s'. iteration env maxRetries s = Returned AtFaultRetries r s' \<and>
               status r = Status_FAILED \<and> error r = Some (errorMessage e) \<and>
               retryCount r = l_retryCount s + 1 \<and>
               steps r = l_steps s @ [st, failStep ''Exceeded maximum retry attempts'' (errorMessage e)])) \<and>
         (l_retryCount s + 1 < maxRetries \<longrightarrow>
            (\<exists>s'. iteration env maxRetries s = GoOn s' \<and>
               l_steps s' = l_steps s @ [st] \<and> l_retryCount s' = l_retryCount s + 1 \<and>
               l_events s' = l_events s @ [Decision, Actuate (tool st) (instruction st),
                                           PauseBeforeRetry, Actuate SCREENSHOT '''']))"
proof -
  note f = fault_iteration[OF assms, of maxRetries]
  show ?thesis
  proof (intro conjI impI)
    assume "maxRetries \<le> l_retryCount s + 1"
    with f show "\<exists>r s'. iteration env maxRetries s = Returned AtFaultRetries r s' \<and>
               status r = Status_FAILED \<and> error r = Some (errorMessage e) \<and>
               retryCount r = l_retryCount s + 1 \<and>
               steps r = l_steps s @ [st, failStep ''Exceeded maximum retry attempts'' (errorMessage e)]"
      by (simp add: catchBlock_def Let_def failedResult_def push_def)
  next
    assume "l_retryCount s + 1 < maxRetries"
    with f show "\<exists>s'. iteration env maxRetries s = GoOn s' \<and>
               l_steps s' = l_steps s @ [st] \<and> l_retryCount s' = l_retryCount s + 1 \<and>
               l_events s' = l_events s @ [Decision, Actuate (tool st) (instruction st),
                                           PauseBeforeRetry, Actuate SCREENSHOT '''']"
      by (simp add: catchBlock_def Let_def refreshScreenshot_frame)
  qed
qed

theorem C5_witness:
  "(\<exists>r s'. iteration envBoom 1 (startLoop envBoom () Null) = Returned AtFaultRetries r s' \<and>
      status r = Status_FAILED \<and> error r = Some ''boom'' \<and> retryCount r = 1 \<and>
      steps r = [clickStep, failStep ''Exceeded maximum retry attempts'' ''boom'']) \<and>
   (\<exists>s'. iteration envBoom 3 (startLoop envBoom () Null) = GoOn s' \<and>
      l_steps s' = [clickStep] \<and> l_retryCount s' = 1 \<and>
      l_events s' = [Actuate SCREENSHOT '''', Decision, Actuate ACT ''click the button'',
                     PauseBeforeRetry, Actuate SCREENSHOT ''''])"
proof -
  let ?s = "startLoop envBoom () Null"
  let ?s1 = "?s\<lparr>l_events := l_events ?s @ [Decision], l_world := ()\<rparr>"
  let ?s2 = "?s1\<lparr>l_recentActionHistory := [pairOf clickStep]\<rparr>"
  have g: "getNextStep envBoom ?s = (clickStep, ?s1)"
    by (simp add: getNextStep_def envBoom_def postprocess_def clickStep_def hasCompletionPhrase_def
          completionPhrases_def toLowerCase_def lowerChar_def upperLower_def)
  have r: "isRepeatingAction clickStep ?s1 = (False, ?s2)"
    by (simp add: isRepeatingAction_def startLoop_fields MAX_DUPLICATES_def MAX_HISTORY_def)
  obtain s3 where x: "executeStep envBoom clickStep (push clickStep ?s2) = (Inl (ErrorObj ''boom''), s3)"
    by (simp add: executeStep_def runStagehand_def envBoom_def clickStep_def Let_def)
  have l: "length (l_steps ?s) < MAX_STEPS" by (simp add: startLoop_fields MAX_STEPS_def)
  have t: "tool clickStep \<noteq> DONE" "tool clickStep \<noteq> FAIL" "tool clickStep \<noteq> CLOSE"
    by (simp_all add: clickStep_def)
  from C5_actuator_fault[OF l g t r x, of 1] C5_actuator_fault[OF l g t r x, of 3]
  show ?thesis by (simp add: startLoop_fields clickStep_def)
qed

text \<open>
  The claim as written says that no step is appended for the fault. With \<^verbatim>\<open>maxRetries = 1\<close>
  one decision and one failing action leave two steps, the second being the FAIL step made
  from the fault.
\<close>

theorem C5_counterexample:
  "steps (executeSubtask envBoom 1 () Null) =
     [clickStep, failStep ''Exceeded maximum retry attempts'' ''boom''] \<and>
   l_events (snd (snd (executeSubtaskTrace envBoom 1 () Null))) =
     [Actuate SCREENSHOT '''', Decision, Actuate ACT ''click the button'']"
  by code_simp

text \<open>
  C6. \<^verbatim>\<open>createTask\<close>, as the spec describes it. For a plan with at least one subtask whose
  declared dependency indices are all in range and form no cycle, it succeeds: the subtask at
  position \<open>i\<close> (from 0) gets the id "subtask-" followed by \<open>i + 1\<close>, every declared index is
  replaced by the id of the subtask at that index, and every subtask is PENDING. For a plan
  with an index out of range or with a dependency cycle it fails with \<^verbatim>\<open>InvalidPlan\<close>.
\<close>

theorem C6_createTask_validation:
  "(planned \<noteq> [] \<and> inRange planned \<and> acyclic (dependsOn planned) \<longrightarrow>
      createTask newId goal summary planned sessionId =
        Inr \<lparr>t_id = newId, t_goal = goal, t_summary = summary,
             t_subtasks = planSubtasks planned, t_status = Status_PENDING,
             t_sessionId = sessionId\<rparr> \<and>
      length (planSubtasks planned) = length planned \<and>
      (\<forall>i < length planned.
         s_id (planSubtasks planned ! i) = ''subtask-'' @ showNat (i + 1) \<and>
         s_status (planSubtasks planned ! i) = Status_PENDING \<and>
         s_dependencies (planSubtasks planned ! i) =
           map_option (map (\<lambda>d. s_id (planSubtasks planned ! nat d)))
             (p_dependencies (planned ! i)))) \<and>
   (\<not> inRange planned \<or> \<not> acyclic (dependsOn planned) \<longrightarrow>
      createTask newId goal summary planned sessionId = Inl InvalidPlan)"
proof (intro conjI impI allI; (elim conjE)?)
  assume a: "planned \<noteq> []" "inRange planned" "acyclic (dependsOn planned)"
  from a(3) have "topologicalSort (map (\<lambda>st. map nat (declared st)) planned) \<noteq> None"
    using topologicalSort_dependsOn[OF a(2)] by blast
  with a show "createTask newId goal summary planned sessionId =
        Inr \<lparr>t_id = newId, t_goal = goal, t_summary = summary,
             t_subtasks = planSubtasks planned, t_status = Status_PENDING,
             t_sessionId = sessionId\<rparr>"
    by (simp add: createTask_def)
  show "length (planSubtasks planned) = length planned" by (simp add: planSubtasks_def)
  fix i assume i: "i < length planned"
  show "s_id (planSubtasks planned ! i) = ''subtask-'' @ showNat (i + 1)"
    using i by (simp add: planSubtasks_nth subtaskName_nat)
  show "s_status (planSubtasks planned ! i) = Status_PENDING"
    using i by (simp add: planSubtasks_nth)
  have "map subtaskName ds = map (\<lambda>d. s_id (planSubtasks planned ! nat d)) ds"
    if "p_dependencies (planned ! i) = Some ds" for ds
  proof (rule map_cong[OF refl])
    fix d assume "d \<in> set ds"
    with that have "d \<in> set (declared (planned ! i))" by (simp add: declared_def)
    moreover from i have "planned ! i \<in> set planned" by simp
    ultimately have "0 \<le> d \<and> d < int (length planned)"
      using a(2) unfolding inRange_def list_all_iff by blast
    then have "0 \<le> d" "nat d < length planned" by linarith+
    then show "subtaskName d = s_id (planSubtasks planned ! nat d)"
      by (simp add: planSubtasks_nth)
  qed
  then show "s_dependencies (planSubtasks planned ! i) =
           map_option (map (\<lambda>d. s_id (planSubtasks planned ! nat d)))
             (p_dependencies (planned ! i))"
    using i by (cases "p_dependencies (planned ! i)") (simp_all add: planSubtasks_nth)
next
  assume "\<not> inRange planned \<or> \<not> acyclic (dependsOn planned)"
  then show "createTask newId goal summary planned sessionId = Inl InvalidPlan"
    using topologicalSort_dependsOn[of planned] by (cases "inRange planned") (auto simp: createTask_def)
qed

theorem C6_witness:
  "createTask ''task-1'' ''goal'' ''summary'' planABC ''session'' =
     Inr \<lparr>t_id = ''task-1'', t_goal = ''goal'', t_summary = ''summary'',
          t_subtasks =
            [\<lparr>s_id = ''subtask-1'', s_description = ''Open the site'', s_goal = ''A'',
              s_dependencies = None, s_status = Status_PENDING\<rparr>,
             \<lparr>s_id = ''subtask-2'', s_description = ''Find the price'', s_goal = ''B'',
              s_dependencies = Some [''subtask-1''], s_status = Status_PENDING\<rparr>,
             \<lparr>s_id = ''subtask-3'', s_description = ''Find the volume'', s_goal = ''C'',
              s_dependencies = Some [''subtask-1''], s_status = Status_PENDING\<rparr>],
          t_status = Status_PENDING, t_sessionId = ''session''\<rparr> \<and>
   createTask ''task-2'' ''goal'' ''summary'' planCycle ''session'' = Inl InvalidPlan"
proof -
  have r: "inRange planABC" "inRange planCycle"
    by (simp_all add: inRange_def planABC_def planCycle_def declared_def)
  have "topologicalSort (map (\<lambda>st. map nat (declared st)) planABC) \<noteq> None"
    by code_simp
  then have ac: "acyclic (dependsOn planABC)" using topologicalSort_dependsOn[OF r(1)] by blast
  have "topologicalSort (map (\<lambda>st. map nat (declared st)) planCycle) = None"
    by code_simp
  then have cy: "\<not> acyclic (dependsOn planCycle)"
    using topologicalSort_dependsOn[OF r(2)] by blast
  have ne: "planABC \<noteq> []" by (simp add: planABC_def)
  have subs: "planSubtasks planABC =
            [\<lparr>s_id = ''subtask-1'', s_description = ''Open the site'', s_goal = ''A'',
              s_dependencies = None, s_status = Status_PENDING\<rparr>,
             \<lparr>s_id = ''subtask-2'', s_description = ''Find the price'', s_goal = ''B'',
              s_dependencies = Some [''subtask-1''], s_status = Status_PENDING\<rparr>,
             \<lparr>s_id = ''subtask-3'', s_description = ''Find the volume'', s_goal = ''C'',
              s_dependencies = Some [''subtask-1''], s_status = Status_PENDING\<rparr>]"
    by code_simp
  from C6_createTask_validation[of planABC "''task-1''" "''goal''" "''summary''" "''session''"]
    C6_createTask_validation[of planCycle "''task-2''" "''goal''" "''summary''" "''session''"]
    ne r ac cy subs
  show ?thesis by simp
qed






text \<open>
  C9. The code after the \<^verbatim>\<open>while\<close> loop (the DONE result whose step says "Reached the end of
  execution successfully") is never reached: \<^verbatim>\<open>isSubtaskComplete\<close> is false in every state in
  which the loop condition is tested, so every result of \<^verbatim>\<open>executeSubtask\<close> comes from a
  \<^verbatim>\<open>return\<close> inside the loop body or from the outer \<^verbatim>\<open>catch\<close> handler.
\<close>

theorem C9_after_loop_unreachable:
  "fst (executeSubtaskTrace env maxRetries w pe) \<noteq> AfterLoop \<and>
   (\<forall>s. loopState env maxRetries w pe s \<longrightarrow> \<not> l_isSubtaskComplete s)"
  by (simp add: executeSubtaskTrace_def whileLoop_exit startLoop_flag loopState_flag)

theorem C9_witness:
  "fst (executeSubtaskTrace envSame 3 () Null) \<noteq> AfterLoop \<and>
   \<not> l_isSubtaskComplete (startLoop envSame () Null)"
  using C9_after_loop_unreachable[of envSame 3 "()" Null] loopState.first[of envSame 3 "()" Null]
  by blast



end
